theory Spec2Isabelle
  imports Main "HOL-Library.Word" "HOL-Library.Finite_Map"
begin

section \<open>Data model\<close>

text \<open>
  The types of the key API come from gomatrixserverlib: a \<^verbatim>\<open>Timestamp\<close> is an unsigned
  64-bit number of milliseconds, a \<^verbatim>\<open>PublicKeyLookupRequest\<close> names a key by server and
  key id, a \<^verbatim>\<open>PublicKeyLookupResult\<close> carries the key with its two timestamps.  A Go map
  has finitely many entries with unique keys and no iteration order: it is a finite map.
\<close>

type_synonym Timestamp = "64 word"

text \<open>
  Modelled from the spec: the sentinel \<^verbatim>\<open>gomatrixserverlib.PublicKeyNotExpired\<close> ("not
  expired") is declared outside this repository; the library gives it the timestamp zero.
  Only the examples below depend on which value it is.
\<close>

definition PublicKeyNotExpired :: Timestamp where
  "PublicKeyNotExpired = 0"

record PublicKeyLookupRequest =
  ServerName :: string
  KeyID :: string

record PublicKeyLookupResult =
  VerifyKey :: "8 word list"
  ExpiredTS :: Timestamp
  ValidUntilTS :: Timestamp

type_synonym requests = "(PublicKeyLookupRequest, Timestamp) fmap"
type_synonym results = "(PublicKeyLookupRequest, PublicKeyLookupResult) fmap"

section \<open>Contexts, errors and collaborators\<close>

text \<open>
  A \<^verbatim>\<open>context.Context\<close> is either the background context, which is never cancelled, or a
  context of the caller's, which may be cancelled already.
\<close>

datatype Context = Background | Cancellable bool

text \<open>
  Errors of the collaborators are opaque; \<^verbatim>\<open>FailedToStore\<close> is the wrapping
  \<^verbatim>\<open>"server key API failed to store retrieved keys: %w"\<close> and \<^verbatim>\<open>FailedToFetch\<close> is
  \<^verbatim>\<open>"server key API failed to fetch %d keys"\<close>.
\<close>

datatype error =
    Collaborator string
  | FailedToStore error
  | FailedToFetch nat

text \<open>
  The Store and the Fetchers are interfaces of gomatrixserverlib, implemented outside the
  sources verified here.  A call takes the context and a batch, may change the world \<open>'s\<close>
  it runs in (the database, the network) and returns either an error or a batch.  The
  interface contract is that a callee leaves the maps it is handed unchanged and does not
  keep them.
\<close>

type_synonym 's KeyFetcher = "Context \<Rightarrow> requests \<Rightarrow> 's \<Rightarrow> (error + results) \<times> 's"

record 's KeyDatabase =
  db_FetchKeys :: "'s KeyFetcher"
  db_StoreKeys :: "Context \<Rightarrow> results \<Rightarrow> 's \<Rightarrow> error option \<times> 's"

record 's KeyRing =
  KeyDatabase :: "'s KeyDatabase"
  KeyFetchers :: "'s KeyFetcher list"

record 's ServerKeyAPI =
  OurKeyRing :: "'s KeyRing"

section \<open>The Key Ring: \<^verbatim>\<open>ServerKeyAPI\<close>\<close>

text \<open>
  The test both \<^verbatim>\<open>FetchKeys\<close> functions make before using a stored or cached result:
  \<^verbatim>\<open>now > res.ValidUntilTS && res.ExpiredTS == gomatrixserverlib.PublicKeyNotExpired\<close>
  (unsigned comparison); a result for which it holds is skipped with \<^verbatim>\<open>continue\<close>.
\<close>

definition stale :: "Timestamp \<Rightarrow> PublicKeyLookupResult \<Rightarrow> bool" where
  "stale now res \<longleftrightarrow> now > ValidUntilTS res \<and> ExpiredTS res = PublicKeyNotExpired"

text \<open>
  The validity invariant in the words of the spec, to compare the test above with: a
  result is usable from a cache or store if its \<^verbatim>\<open>ExpiredAt\<close> is an explicit timestamp, or
  the current time is not past its \<^verbatim>\<open>ValidUntil\<close>.
\<close>

definition usable :: "Timestamp \<Rightarrow> PublicKeyLookupResult \<Rightarrow> bool" where
  "usable now res \<longleftrightarrow> ExpiredTS res \<noteq> PublicKeyNotExpired \<or> \<not> now > ValidUntilTS res"

text \<open>
  \<^verbatim>\<open>StoreKeys\<close> drops the caller's context and calls the database's \<^verbatim>\<open>StoreKeys\<close> with a
  fresh background context.
\<close>

definition StoreKeys ::
  "'s ServerKeyAPI \<Rightarrow> Context \<Rightarrow> results \<Rightarrow> 's \<Rightarrow> error option \<times> 's" where
  "StoreKeys s callerCtx results w =
     (let ctx = Background
      in db_StoreKeys (KeyDatabase (OurKeyRing s)) ctx results w)"

text \<open>
  The body of the loop over \<^verbatim>\<open>dbResults\<close>, for one entry of the map: a stale result is
  skipped, any other one is put into \<^verbatim>\<open>results\<close> and its identifier deleted from
  \<^verbatim>\<open>requests\<close>.
\<close>

definition storeResultStep ::
  "Timestamp \<Rightarrow> PublicKeyLookupRequest \<times> PublicKeyLookupResult \<Rightarrow> results \<times> requests
     \<Rightarrow> results \<times> requests" where
  "storeResultStep now = (\<lambda>(req, res) (results, requests).
     if stale now res then (results, requests)
     else (fmupd req res results, fmdrop req requests))"

text \<open>
  The whole loop.  Go ranges over a map in no fixed order; the keys of a map are
  distinct, so the loop's effect is the same in every order (shown below for every
  enumeration of the map): every entry of \<^verbatim>\<open>dbResults\<close> that is kept overrides
  \<^verbatim>\<open>results\<close>, and every kept key leaves \<^verbatim>\<open>requests\<close>.
\<close>

definition addStoreResults ::
  "Timestamp \<Rightarrow> results \<Rightarrow> results \<times> requests \<Rightarrow> results \<times> requests" where
  "addStoreResults now dbResults = (\<lambda>(results, requests).
     let kept = fmfilter (\<lambda>req. case fmlookup dbResults req of
                                   None \<Rightarrow> False
                                 | Some res \<Rightarrow> \<not> stale now res) dbResults
     in (results ++\<^sub>f kept, fmdrop_fset (fmdom kept) requests))"

text \<open>The body of the loop over \<^verbatim>\<open>fetcherResults\<close>, which keeps every entry, and the loop.\<close>

definition fetcherResultStep ::
  "PublicKeyLookupRequest \<times> PublicKeyLookupResult \<Rightarrow> results \<times> requests
     \<Rightarrow> results \<times> requests" where
  "fetcherResultStep = (\<lambda>(req, res) (results, requests).
     (fmupd req res results, fmdrop req requests))"

definition addFetcherResults :: "results \<Rightarrow> results \<times> requests \<Rightarrow> results \<times> requests" where
  "addFetcherResults fetcherResults = (\<lambda>(results, requests).
     (results ++\<^sub>f fetcherResults, fmdrop_fset (fmdom fetcherResults) requests))"

text \<open>
  The loop over \<^verbatim>\<open>s.OurKeyRing.KeyFetchers\<close>.  It returns the error of the early
  \<^verbatim>\<open>return nil, fmt.Errorf(...)\<close> if a write to the database failed, the two maps and
  the world.
\<close>

fun fetcherLoop ::
  "'s KeyDatabase \<Rightarrow> Context \<Rightarrow> 's KeyFetcher list \<Rightarrow> results \<Rightarrow> requests \<Rightarrow> 's
     \<Rightarrow> error option \<times> results \<times> requests \<times> 's" where
  "fetcherLoop db ctx [] results requests w = (None, results, requests, w)"
| "fetcherLoop db ctx (fetcher # fetchers) results requests w =
     (if fcard (fmdom requests) = 0 then (None, results, requests, w)
      else case fetcher ctx requests w of
          (Inl err, w1) \<Rightarrow> fetcherLoop db ctx fetchers results requests w1
        | (Inr fetcherResults, w1) \<Rightarrow>
            (case addFetcherResults fetcherResults (results, requests) of
              (results, requests) \<Rightarrow>
                (case db_StoreKeys db ctx fetcherResults w1 of
                  (Some err, w2) \<Rightarrow> (Some (FailedToStore err), results, requests, w2)
                | (None, w2) \<Rightarrow> fetcherLoop db ctx fetchers results requests w2)))"

text \<open>
  What \<^verbatim>\<open>FetchKeys\<close> does with the answer of the database's \<^verbatim>\<open>FetchKeys\<close>: on
  \<^verbatim>\<open>err == nil\<close> the loop above runs on the empty \<^verbatim>\<open>results\<close>, on an error nothing
  happens.
\<close>

definition consultStore ::
  "Timestamp \<Rightarrow> error + results \<Rightarrow> requests \<Rightarrow> results \<times> requests" where
  "consultStore now r requests =
     (case r of
        Inr dbResults \<Rightarrow> addStoreResults now dbResults (fmempty, requests)
      | Inl err \<Rightarrow> (fmempty, requests))"

text \<open>
  \<^verbatim>\<open>FetchKeys\<close>.  The clock is read once (\<open>now\<close>).  The result is what the Go function
  returns (the map, \<open>None\<close> for \<^verbatim>\<open>nil\<close>, and the error), the caller's \<^verbatim>\<open>requests\<close> map
  as the function leaves it, and the world.
\<close>

definition FetchKeys ::
  "'s ServerKeyAPI \<Rightarrow> Timestamp \<Rightarrow> Context \<Rightarrow> requests \<Rightarrow> 's
     \<Rightarrow> results option \<times> error option \<times> requests \<times> 's" where
  "FetchKeys s now callerCtx requests w =
     (let ctx = Background
      in case db_FetchKeys (KeyDatabase (OurKeyRing s)) ctx requests w of
        (r, w1) \<Rightarrow>
          (case consultStore now r requests of
            (results, requests) \<Rightarrow>
              (case fetcherLoop (KeyDatabase (OurKeyRing s)) ctx
                      (KeyFetchers (OurKeyRing s)) results requests w1 of
                (Some err, results, requests, w2) \<Rightarrow> (None, Some err, requests, w2)
              | (None, results, requests, w2) \<Rightarrow>
                  if fcard (fmdom requests) > 0
                  then (Some results, Some (FailedToFetch (fcard (fmdom requests))), requests, w2)
                  else (Some results, None, requests, w2))))"

section \<open>The Client-Side Cache Facade: \<^verbatim>\<open>httpServerKeyInternalAPI\<close>\<close>

text \<open>
  Modelled from the spec: \<^verbatim>\<open>caching.ServerKeyCache\<close> is implemented
  outside the sources verified here (dendrite's internal/caching).
  The spec calls it an in-memory cache "equivalent in shape to the Store", where the last
  write for an identifier wins: a finite map with lookup and update.
\<close>

type_synonym ServerKeyCache = results

definition GetServerKey ::
  "ServerKeyCache \<Rightarrow> PublicKeyLookupRequest \<Rightarrow> PublicKeyLookupResult option" where
  "GetServerKey cache req = fmlookup cache req"

definition StoreServerKey ::
  "PublicKeyLookupRequest \<Rightarrow> PublicKeyLookupResult \<Rightarrow> ServerKeyCache \<Rightarrow> ServerKeyCache" where
  "StoreServerKey req res cache = fmupd req res cache"

text \<open>
  The two remote calls post a request over HTTP and decode the response; the transport
  is outside the sources verified here.  A call takes the context and the request's batch, may
  change the remote world \<open>'w\<close>, and returns an error or (for the query) the response's
  \<^verbatim>\<open>Results\<close>.
\<close>

record 'w httpServerKeyInternalAPI =
  QueryPublicKeys :: "Context \<Rightarrow> requests \<Rightarrow> 'w \<Rightarrow> (error + results) \<times> 'w"
  InputPublicKeys :: "Context \<Rightarrow> results \<Rightarrow> 'w \<Rightarrow> error option \<times> 'w"

text \<open>
  The body of the loop of the facade's \<^verbatim>\<open>StoreKeys\<close> over \<^verbatim>\<open>results\<close>, and of the loop of
  its \<^verbatim>\<open>FetchKeys\<close> over \<^verbatim>\<open>response.Results\<close>: the entry is put into a map
  (\<^verbatim>\<open>request.Keys\<close>, respectively \<^verbatim>\<open>result\<close>) and stored in the cache.
\<close>

definition putAndCacheStep ::
  "PublicKeyLookupRequest \<times> PublicKeyLookupResult \<Rightarrow> results \<times> ServerKeyCache
     \<Rightarrow> results \<times> ServerKeyCache" where
  "putAndCacheStep = (\<lambda>(req, res) (batch, cache).
     (fmupd req res batch, StoreServerKey req res cache))"

text \<open>
  \<^verbatim>\<open>StoreKeys\<close> of the facade: every given result is copied into the request and stored in
  the cache (in any order: the entries override both maps), then the request is posted
  with a background context.  The state is the cache and the remote world.
\<close>

definition StoreKeys_client ::
  "'w httpServerKeyInternalAPI \<Rightarrow> Context \<Rightarrow> results \<Rightarrow> ServerKeyCache \<times> 'w
     \<Rightarrow> error option \<times> ServerKeyCache \<times> 'w" where
  "StoreKeys_client s callerCtx results = (\<lambda>(cache, w).
     let ctx = Background;
         requestKeys = fmempty ++\<^sub>f results;
         cache = cache ++\<^sub>f results
     in case InputPublicKeys s ctx requestKeys w of
          (err, w') \<Rightarrow> (err, cache, w'))"

text \<open>
  The body of the first loop of the facade's \<^verbatim>\<open>FetchKeys\<close>, over \<^verbatim>\<open>requests\<close>: on a cache
  hit the result is skipped if stale and put into \<^verbatim>\<open>result\<close> otherwise, and in both cases
  the loop continues with the next identifier; only on a cache miss the identifier is put
  into \<^verbatim>\<open>request.Requests\<close>.
\<close>

definition cacheStep ::
  "Timestamp \<Rightarrow> ServerKeyCache \<Rightarrow> PublicKeyLookupRequest \<times> Timestamp \<Rightarrow> results \<times> requests
     \<Rightarrow> results \<times> requests" where
  "cacheStep now cache = (\<lambda>(req, ts) (result, requestRequests).
     case GetServerKey cache req of
       Some res \<Rightarrow>
         if stale now res then (result, requestRequests)
         else (fmupd req res result, requestRequests)
     | None \<Rightarrow> (result, fmupd req ts requestRequests))"

text \<open>
  The whole loop, from the empty \<^verbatim>\<open>result\<close> and \<^verbatim>\<open>request.Requests\<close>, in any order: it
  returns the usable cache entries of the requested identifiers, and the requests of the
  identifiers without a cache entry.
\<close>

definition cacheLookups ::
  "Timestamp \<Rightarrow> ServerKeyCache \<Rightarrow> requests \<Rightarrow> results \<times> requests" where
  "cacheLookups now cache requests =
     (fmfilter (\<lambda>req. req |\<in>| fmdom requests \<and>
                  (case GetServerKey cache req of
                     None \<Rightarrow> False
                   | Some res \<Rightarrow> \<not> stale now res)) cache,
      fmfilter (\<lambda>req. case GetServerKey cache req of None \<Rightarrow> True | Some res \<Rightarrow> False)
        requests)"

text \<open>
  \<^verbatim>\<open>FetchKeys\<close> of the facade: the cache loop, the remote query with a background context,
  and on success the loop over the response, which puts every result into \<^verbatim>\<open>result\<close> and
  into the cache.  An error of the remote call is returned with a \<^verbatim>\<open>nil\<close> map.
\<close>

definition FetchKeys_client ::
  "'w httpServerKeyInternalAPI \<Rightarrow> Timestamp \<Rightarrow> Context \<Rightarrow> requests \<Rightarrow> ServerKeyCache \<times> 'w
     \<Rightarrow> results option \<times> error option \<times> ServerKeyCache \<times> 'w" where
  "FetchKeys_client s now callerCtx requests = (\<lambda>(cache, w).
     let ctx = Background
     in case cacheLookups now cache requests of
       (result, requestRequests) \<Rightarrow>
         (case QueryPublicKeys s ctx requestRequests w of
            (Inl err, w') \<Rightarrow> (None, Some err, cache, w')
          | (Inr responseResults, w') \<Rightarrow>
              (Some (result ++\<^sub>f responseResults), None, cache ++\<^sub>f responseResults, w')))"

section \<open>The event builder's truncation\<close>

text \<open>
  \<^verbatim>\<open>truncateAuthAndPrevEvents\<close>: a slice longer than its cap is resliced to the cap
  (\<^verbatim>\<open>truncAuth[:10]\<close>, \<^verbatim>\<open>truncPrev[:20]\<close>), any other slice is returned as it is.
\<close>

definition truncateAuthAndPrevEvents :: "'a list \<Rightarrow> 'a list \<Rightarrow> 'a list \<times> 'a list" where
  "truncateAuthAndPrevEvents auth prev =
     (let truncAuth = auth;
          truncPrev = prev;
          truncAuth = (if length truncAuth > 10 then take 10 truncAuth else truncAuth);
          truncPrev = (if length truncPrev > 20 then take 20 truncPrev else truncPrev)
      in (truncAuth, truncPrev))"

section \<open>Observing the collaborators\<close>

text \<open>
  What a run of the Key Ring does to its collaborators is observed by letting them keep a
  log: every call of the database or of a Fetcher appends one event with the context and
  the batch it was given and with what it answered.  The Key Ring's code is not changed;
  the logging collaborators behave as the given ones on the first component of the world.
\<close>

datatype event =
    StoreRead Context requests "error + results"
  | FetcherCalled nat Context requests "error + results"
  | StoreWrite Context results "error option"

definition logFetcher :: "nat \<Rightarrow> 's KeyFetcher \<Rightarrow> ('s \<times> event list) KeyFetcher" where
  "logFetcher i fetcher ctx requests = (\<lambda>(w, log).
     case fetcher ctx requests w of
       (r, w') \<Rightarrow> (r, (w', log @ [FetcherCalled i ctx requests r])))"

fun logFetchers :: "nat \<Rightarrow> 's KeyFetcher list \<Rightarrow> ('s \<times> event list) KeyFetcher list" where
  "logFetchers i [] = []"
| "logFetchers i (fetcher # fetchers) = logFetcher i fetcher # logFetchers (Suc i) fetchers"

definition logDatabase :: "'s KeyDatabase \<Rightarrow> ('s \<times> event list) KeyDatabase" where
  "logDatabase db =
     \<lparr>db_FetchKeys = (\<lambda>ctx requests (w, log).
        case db_FetchKeys db ctx requests w of
          (r, w') \<Rightarrow> (r, (w', log @ [StoreRead ctx requests r]))),
      db_StoreKeys = (\<lambda>ctx results (w, log).
        case db_StoreKeys db ctx results w of
          (e, w') \<Rightarrow> (e, (w', log @ [StoreWrite ctx results e])))\<rparr>"

definition logAPI :: "'s ServerKeyAPI \<Rightarrow> ('s \<times> event list) ServerKeyAPI" where
  "logAPI s =
     \<lparr>OurKeyRing =
        \<lparr>KeyDatabase = logDatabase (KeyDatabase (OurKeyRing s)),
         KeyFetchers = logFetchers 0 (KeyFetchers (OurKeyRing s))\<rparr>\<rparr>"

text \<open>The events the Fetcher loop leaves in an empty log.\<close>

definition loopLog ::
  "'s KeyDatabase \<Rightarrow> Context \<Rightarrow> nat \<Rightarrow> 's KeyFetcher list \<Rightarrow> results \<Rightarrow> requests \<Rightarrow> 's
     \<Rightarrow> event list" where
  "loopLog db ctx i fetchers results requests w =
     snd (snd (snd (snd (fetcherLoop (logDatabase db) ctx (logFetchers i fetchers)
                            results requests (w, [])))))"



text \<open>The context a collaborator was called with.\<close>

fun eventContext :: "event \<Rightarrow> Context" where
  "eventContext (StoreRead ctx requests r) = ctx"
| "eventContext (FetcherCalled j ctx requests r) = ctx"
| "eventContext (StoreWrite ctx results e) = ctx"


fun answered :: "event list \<Rightarrow> PublicKeyLookupRequest fset" where
  "answered [] = {||}"
| "answered (FetcherCalled j ctx requests (Inr answer) # rest) = fmdom answer |\<union>| answered rest"
| "answered (ev # rest) = answered rest"


text \<open>
  The batch a log accounts for, from the results \<open>results\<close> taken over from the Store: the
  answers of the Fetchers merged in the order of the calls, a later answer overriding an
  earlier result.  A call that returned an error contributes nothing.
\<close>

fun merged :: "results \<Rightarrow> event list \<Rightarrow> results" where
  "merged results [] = results"
| "merged results (FetcherCalled j ctx requests (Inr answer) # rest) =
     merged (results ++\<^sub>f answer) rest"
| "merged results (ev # rest) = merged results rest"



section \<open>The Key Store, and a concrete scenario\<close>

text \<open>
  Modelled from the spec: the Key Store behind \<^verbatim>\<open>KeyDatabase\<close> is implemented outside the
  sources verified here.  The spec describes it as durable keyed storage: \<^verbatim>\<open>StoreKeys\<close> is an
  upsert keyed by identifier, where the latest value stored for an identifier wins and
  no other entry is deleted, and it is queried for all requested identifiers in one call.
  The world of this store is the stored batch.
\<close>

definition mapStore :: "results KeyDatabase" where
  "mapStore =
     \<lparr>db_FetchKeys = (\<lambda>ctx requests stored.
        (Inr (fmrestrict_fset (fmdom requests) stored), stored)),
      db_StoreKeys = (\<lambda>ctx results stored. (None, stored ++\<^sub>f results))\<rparr>"


text \<open>
  Two Fetchers for the examples: one that cannot reach its server, and one that answers
  the identifiers it is asked for out of the batch it knows.
\<close>

definition unreachable :: "'s KeyFetcher" where
  "unreachable ctx requests w = (Inl (Collaborator ''unreachable''), w)"

definition answering :: "results \<Rightarrow> 's KeyFetcher" where
  "answering known ctx requests w = (Inr (fmrestrict_fset (fmdom requests) known), w)"

definition keyA :: PublicKeyLookupRequest where
  "keyA = \<lparr>ServerName = ''a.example'', KeyID = ''ed25519:1''\<rparr>"

definition keyB :: PublicKeyLookupRequest where
  "keyB = \<lparr>ServerName = ''b.example'', KeyID = ''ed25519:1''\<rparr>"

definition keyC :: PublicKeyLookupRequest where
  "keyC = \<lparr>ServerName = ''c.example'', KeyID = ''ed25519:1''\<rparr>"

text \<open>A result that is not expired and valid until the given time.\<close>

definition validUntil :: "Timestamp \<Rightarrow> PublicKeyLookupResult" where
  "validUntil t = \<lparr>VerifyKey = [1, 2, 3], ExpiredTS = PublicKeyNotExpired, ValidUntilTS = t\<rparr>"

text \<open>A result that was revoked at the time 80, its validity ending at 100.\<close>

definition revoked :: PublicKeyLookupResult where
  "revoked = \<lparr>VerifyKey = [4, 5, 6], ExpiredTS = 80, ValidUntilTS = 100\<rparr>"

text \<open>
  A Key Ring over the map store with the two Fetchers, the second of which knows the key
  of \<open>b.example\<close>; and the same Key Ring over the full store.
\<close>

definition exampleAPI :: "results ServerKeyAPI" where
  "exampleAPI =
     \<lparr>OurKeyRing =
        \<lparr>KeyDatabase = mapStore,
         KeyFetchers = [unreachable, answering (fmap_of_list [(keyB, validUntil 200)])]\<rparr>\<rparr>"


text \<open>
  A remote Key Ring for the facade that resolves every identifier it is asked for, and
  keeps the batches it was asked in its world.
\<close>

definition resolvingRemote :: "(requests list) httpServerKeyInternalAPI" where
  "resolvingRemote =
     \<lparr>QueryPublicKeys = (\<lambda>ctx requests asked.
        (Inr (fmmap (\<lambda>ts. validUntil 1000) requests), asked @ [requests])),
      InputPublicKeys = (\<lambda>ctx results asked. (None, asked))\<rparr>"

text \<open>A remote Key Ring that cannot be reached; it keeps the batches it was asked as well.\<close>

definition downRemote :: "(requests list) httpServerKeyInternalAPI" where
  "downRemote =
     \<lparr>QueryPublicKeys = (\<lambda>ctx requests asked.
        (Inl (Collaborator ''connection refused''), asked @ [requests])),
      InputPublicKeys = (\<lambda>ctx results asked. (Some (Collaborator ''connection refused''), asked))\<rparr>"

text \<open>
  A batch of three requests against a store that holds the key of \<open>a.example\<close> only; no
  collaborator knows the key of \<open>c.example\<close>.
\<close>

definition exampleRequests :: requests where
  "exampleRequests = fmap_of_list [(keyA, 50), (keyB, 50), (keyC, 50)]"

definition exampleStored :: results where
  "exampleStored = fmap_of_list [(keyA, validUntil 100)]"



text \<open>
  A cache for the facade that holds the revoked key of \<open>a.example\<close> and a key of
  \<open>b.example\<close> whose validity ended at the time 100.
\<close>

definition exampleCache :: ServerKeyCache where
  "exampleCache = fmap_of_list [(keyA, revoked), (keyB, validUntil 100)]"

text \<open>The two cached identifiers, requested at the time 150.\<close>

definition laterRequests :: requests where
  "laterRequests = fmap_of_list [(keyA, 150), (keyB, 150)]"

section \<open>Facts about finite maps\<close>

lemma len_zero_iff: "fcard (fmdom m) = 0 \<longleftrightarrow> m = fmempty"
proof
  assume "fcard (fmdom m) = 0"
  then have dom: "fmdom m = {||}" by simp
  show "m = fmempty"
  proof (rule fmap_ext)
    fix x
    have "x |\<notin>| fmdom m" unfolding dom by simp
    from fmdom_notD[OF this] show "fmlookup m x = fmlookup fmempty x" by simp
  qed
qed simp

lemma len_pos_iff: "0 < fcard (fmdom m) \<longleftrightarrow> m \<noteq> fmempty"
  unfolding len_zero_iff[symmetric] by (rule neq0_conv[symmetric])



section \<open>Ranging over a map, in any order\<close>

text \<open>
  A Go map is enumerated by a list of its entries with distinct keys, in some order.  For
  every such list the loops, run entry by entry, do what the definitions above say.
\<close>

lemma map_of_absent: "k \<notin> fst ` set xs \<Longrightarrow> map_of xs k = None"
  by (simp add: map_of_eq_None_iff)

lemma map_enumeration:
  "\<exists>entries. distinct (map fst entries) \<and> fmap_of_list entries = m"
proof -
  from finite_distinct_list[of "fset (fmdom m)"] obtain ks where
    ks: "set ks = fset (fmdom m)" "distinct ks"
    by auto
  let ?entries = "map (\<lambda>k. (k, the (fmlookup m k))) ks"
  have "distinct (map fst ?entries)"
    using ks(2) by (simp add: comp_def)
  moreover have "fmap_of_list ?entries = m"
  proof (rule fmap_ext)
    fix x
    show "fmlookup (fmap_of_list ?entries) x = fmlookup m x"
    proof (cases "x |\<in>| fmdom m")
      case True
      then have "x \<in> set ks" using ks(1) by simp
      then have "map_of ?entries x = Some (the (fmlookup m x))"
        by (simp add: map_of_map_restrict)
      with True show ?thesis by (auto simp add: fmlookup_of_list)
    next
      case False
      then have "x \<notin> set ks" using ks(1) by simp
      then have "map_of ?entries x = None"
        by (simp add: map_of_map_restrict)
      with False show ?thesis by (simp add: fmlookup_of_list fmdom_notD)
    qed
  qed
  ultimately show ?thesis by blast
qed

lemma store_loop_any_order:
  "distinct (map fst entries) \<Longrightarrow>
     fold (storeResultStep now) entries (results, requests) =
       addStoreResults now (fmap_of_list entries) (results, requests)"
proof (induction entries arbitrary: results requests)
  case Nil
  show ?case by (simp add: addStoreResults_def)
next
  case (Cons e entries)
  obtain k v where e: "e = (k, v)" by (cases e)
  from Cons.prems have k: "k \<notin> fst ` set entries" and d: "distinct (map fst entries)"
    by (simp_all add: e)
  have none: "fmlookup (fmap_of_list entries) k = None"
    using k by (simp add: fmlookup_of_list map_of_absent)
  have no_entry: "(k, b) \<notin> set entries" for b
    using k by force
  show ?case
  proof (cases "stale now v")
    case True
    have "fold (storeResultStep now) (e # entries) (results, requests) =
            addStoreResults now (fmap_of_list entries) (results, requests)"
      using Cons.IH[OF d] True by (simp add: e storeResultStep_def)
    also have "\<dots> = addStoreResults now (fmap_of_list (e # entries)) (results, requests)"
      using True none no_entry
      by (auto simp add: addStoreResults_def e fmlookup_of_list Let_def fset_of_list_elem
                intro!: fmap_ext split: option.splits)
    finally show ?thesis .
  next
    case False
    have "fold (storeResultStep now) (e # entries) (results, requests) =
            addStoreResults now (fmap_of_list entries) (fmupd k v results, fmdrop k requests)"
      using Cons.IH[OF d] False by (simp add: e storeResultStep_def)
    also have "\<dots> = addStoreResults now (fmap_of_list (e # entries)) (results, requests)"
      using False none no_entry
      by (auto simp add: addStoreResults_def e fmlookup_of_list Let_def fset_of_list_elem
                intro!: fmap_ext split: option.splits)
    finally show ?thesis .
  qed
qed

lemma fetcher_loop_any_order:
  "distinct (map fst entries) \<Longrightarrow>
     fold fetcherResultStep entries (results, requests) =
       addFetcherResults (fmap_of_list entries) (results, requests)"
proof (induction entries arbitrary: results requests)
  case Nil
  show ?case by (simp add: addFetcherResults_def)
next
  case (Cons e entries)
  obtain k v where e: "e = (k, v)" by (cases e)
  from Cons.prems have k: "k \<notin> fst ` set entries" and d: "distinct (map fst entries)"
    by (simp_all add: e)
  have none: "fmlookup (fmap_of_list entries) k = None"
    using k by (simp add: fmlookup_of_list map_of_absent)
  have no_entry: "(k, b) \<notin> set entries" for b
    using k by force
  have "fold fetcherResultStep (e # entries) (results, requests) =
          addFetcherResults (fmap_of_list entries) (fmupd k v results, fmdrop k requests)"
    using Cons.IH[OF d] by (simp add: e fetcherResultStep_def)
  also have "\<dots> = addFetcherResults (fmap_of_list (e # entries)) (results, requests)"
    using none no_entry
    by (auto simp add: addFetcherResults_def e fmlookup_of_list fset_of_list_elem 
             intro!: fmap_ext split: option.splits)
  finally show ?case .
qed

lemma put_and_cache_loop_any_order:
  "distinct (map fst entries) \<Longrightarrow>
     fold putAndCacheStep entries (batch, cache) =
       (batch ++\<^sub>f fmap_of_list entries, cache ++\<^sub>f fmap_of_list entries)"
proof (induction entries arbitrary: batch cache)
  case Nil
  show ?case by simp
next
  case (Cons e entries)
  obtain k v where e: "e = (k, v)" by (cases e)
  from Cons.prems have k: "k \<notin> fst ` set entries" and d: "distinct (map fst entries)"
    by (simp_all add: e)
  have none: "fmlookup (fmap_of_list entries) k = None"
    using k by (simp add: fmlookup_of_list map_of_absent)
  have no_entry: "(k, b) \<notin> set entries" for b
    using k by force
  have "fold putAndCacheStep (e # entries) (batch, cache) =
          (fmupd k v batch ++\<^sub>f fmap_of_list entries, fmupd k v cache ++\<^sub>f fmap_of_list entries)"
    using Cons.IH[OF d] by (simp add: e putAndCacheStep_def StoreServerKey_def)
  also have "\<dots> = (batch ++\<^sub>f fmap_of_list (e # entries), cache ++\<^sub>f fmap_of_list (e # entries))"
    using none no_entry
    by (auto simp add: e fmlookup_of_list fset_of_list_elem 
             intro!: fmap_ext split: option.splits)
  finally show ?case .
qed

lemma cache_loop_any_order:
  "distinct (map fst entries) \<Longrightarrow>
     fold (cacheStep now cache) entries (result, requestRequests) =
       (result ++\<^sub>f fst (cacheLookups now cache (fmap_of_list entries)),
        requestRequests ++\<^sub>f snd (cacheLookups now cache (fmap_of_list entries)))"
proof (induction entries arbitrary: result requestRequests)
  case Nil
  show ?case
    by (auto simp add: cacheLookups_def intro!: fmap_ext)
next
  case (Cons e entries)
  obtain k ts where e: "e = (k, ts)" by (cases e)
  from Cons.prems have k: "k \<notin> fst ` set entries" and d: "distinct (map fst entries)"
    by (simp_all add: e)
  have none: "fmlookup (fmap_of_list entries) k = None"
    using k by (simp add: fmlookup_of_list map_of_absent)
  have no_entry: "(k, b) \<notin> set entries" for b
    using k by force
  show ?case
  proof (cases "GetServerKey cache k")
    case None
    have "fold (cacheStep now cache) (e # entries) (result, requestRequests) =
            (result ++\<^sub>f fst (cacheLookups now cache (fmap_of_list entries)),
             fmupd k ts requestRequests ++\<^sub>f snd (cacheLookups now cache (fmap_of_list entries)))"
      using Cons.IH[OF d] None by (simp add: e cacheStep_def)
    also have "\<dots> =
        (result ++\<^sub>f fst (cacheLookups now cache (fmap_of_list (e # entries))),
         requestRequests ++\<^sub>f snd (cacheLookups now cache (fmap_of_list (e # entries))))"
      using None none no_entry
      by (auto simp add: cacheLookups_def e fmlookup_of_list GetServerKey_def fset_of_list_elem fmlookup_dom_iff
                intro!: fmap_ext split: option.splits)
    finally show ?thesis .
  next
    case (Some res)
    show ?thesis
    proof (cases "stale now res")
      case True
      have "fold (cacheStep now cache) (e # entries) (result, requestRequests) =
              (result ++\<^sub>f fst (cacheLookups now cache (fmap_of_list entries)),
               requestRequests ++\<^sub>f snd (cacheLookups now cache (fmap_of_list entries)))"
        using Cons.IH[OF d] Some True by (simp add: e cacheStep_def)
      also have "\<dots> =
          (result ++\<^sub>f fst (cacheLookups now cache (fmap_of_list (e # entries))),
           requestRequests ++\<^sub>f snd (cacheLookups now cache (fmap_of_list (e # entries))))"
        using Some True none no_entry
        by (auto simp add: cacheLookups_def e fmlookup_of_list GetServerKey_def fset_of_list_elem fmlookup_dom_iff
                  intro!: fmap_ext split: option.splits)
      finally show ?thesis .
    next
      case False
      have "fold (cacheStep now cache) (e # entries) (result, requestRequests) =
              (fmupd k res result ++\<^sub>f fst (cacheLookups now cache (fmap_of_list entries)),
               requestRequests ++\<^sub>f snd (cacheLookups now cache (fmap_of_list entries)))"
        using Cons.IH[OF d] Some False by (simp add: e cacheStep_def)
      also have "\<dots> =
          (result ++\<^sub>f fst (cacheLookups now cache (fmap_of_list (e # entries))),
           requestRequests ++\<^sub>f snd (cacheLookups now cache (fmap_of_list (e # entries))))"
        using Some False none no_entry
        by (auto simp add: cacheLookups_def e fmlookup_of_list GetServerKey_def fset_of_list_elem fmlookup_dom_iff
                  intro!: fmap_ext split: option.splits)
      finally show ?thesis .
    qed
  qed
qed

section \<open>The Fetcher loop, case by case\<close>

lemma fetcherLoop_empty:
  "fetcherLoop db ctx fs rs fmempty w = (None, rs, fmempty, w)"
  by (cases fs) simp_all

lemma fetcherLoop_err:
  assumes "rq \<noteq> fmempty" and "f ctx rq w = (Inl err, w1)"
  shows "fetcherLoop db ctx (f # fs) rs rq w = fetcherLoop db ctx fs rs rq w1"
  using assms by (simp add: len_zero_iff del: fcard_0_eq)

lemma fetcherLoop_failed:
  assumes "rq \<noteq> fmempty" and "f ctx rq w = (Inr fr, w1)"
    and "db_StoreKeys db ctx fr w1 = (Some e, w2)"
  shows "fetcherLoop db ctx (f # fs) rs rq w =
           (Some (FailedToStore e), rs ++\<^sub>f fr, fmdrop_fset (fmdom fr) rq, w2)"
  using assms by (simp add: len_zero_iff addFetcherResults_def del: fcard_0_eq)

lemma fetcherLoop_stored:
  assumes "rq \<noteq> fmempty" and "f ctx rq w = (Inr fr, w1)"
    and "db_StoreKeys db ctx fr w1 = (None, w2)"
  shows "fetcherLoop db ctx (f # fs) rs rq w =
           fetcherLoop db ctx fs (rs ++\<^sub>f fr) (fmdrop_fset (fmdom fr) rq) w2"
  using assms by (simp add: len_zero_iff addFetcherResults_def del: fcard_0_eq)

declare fetcherLoop.simps(2) [simp del]

lemma loop_cases [case_names Done Empty Err Failed Stored]:
  assumes "\<And>i rs rq w. P i [] rs rq w"
    and "\<And>i f fs rs w. P i (f # fs) rs fmempty w"
    and "\<And>i f fs rs rq w err w1.
           rq \<noteq> fmempty \<Longrightarrow> f ctx rq w = (Inl err, w1) \<Longrightarrow> P (Suc i) fs rs rq w1
           \<Longrightarrow> P i (f # fs) rs rq w"
    and "\<And>i f fs rs rq w fr w1 e w2.
           rq \<noteq> fmempty \<Longrightarrow> f ctx rq w = (Inr fr, w1)
           \<Longrightarrow> db_StoreKeys db ctx fr w1 = (Some e, w2)
           \<Longrightarrow> P i (f # fs) rs rq w"
    and "\<And>i f fs rs rq w fr w1 w2.
           rq \<noteq> fmempty \<Longrightarrow> f ctx rq w = (Inr fr, w1)
           \<Longrightarrow> db_StoreKeys db ctx fr w1 = (None, w2)
           \<Longrightarrow> P (Suc i) fs (rs ++\<^sub>f fr) (fmdrop_fset (fmdom fr) rq) w2
           \<Longrightarrow> P i (f # fs) rs rq w"
  shows "P i fs rs rq w"
proof -
  have "\<forall>i rs rq w. P i fs rs rq w"
  proof (induction fs)
    case Nil
    show ?case by (simp add: assms(1))
  next
    case (Cons f fs)
    show ?case
    proof (intro allI)
      fix i rs rq w
      show "P i (f # fs) rs rq w"
      proof (cases "rq = fmempty")
        case True
        then show ?thesis by (simp add: assms(2))
      next
        case False
        obtain r w1 where f: "f ctx rq w = (r, w1)" by (cases "f ctx rq w")
        show ?thesis
        proof (cases r)
          case (Inl err)
          with False f Cons.IH show ?thesis by (auto intro: assms(3))
        next
          case (Inr fr)
          obtain e w2 where st: "db_StoreKeys db ctx fr w1 = (e, w2)"
            by (cases "db_StoreKeys db ctx fr w1")
          show ?thesis
          proof (cases e)
            case None
            with False f Inr st Cons.IH show ?thesis by (auto intro: assms(5))
          next
            case (Some err)
            with False f Inr st show ?thesis by (auto intro: assms(4))
          qed
        qed
      qed
    qed
  qed
  then show ?thesis by blast
qed

section \<open>The logging collaborators\<close>

lemma logDatabase_store:
  "db_StoreKeys (logDatabase db) ctx rs (w, log) =
     (case db_StoreKeys db ctx rs w of (e, w') \<Rightarrow> (e, (w', log @ [StoreWrite ctx rs e])))"
  by (simp add: logDatabase_def)

lemma logDatabase_fetch:
  "db_FetchKeys (logDatabase db) ctx rq (w, log) =
     (case db_FetchKeys db ctx rq w of (r, w') \<Rightarrow> (r, (w', log @ [StoreRead ctx rq r])))"
  by (simp add: logDatabase_def)

lemma logFetcher_call:
  "logFetcher i f ctx rq (w, log) =
     (case f ctx rq w of (r, w') \<Rightarrow> (r, (w', log @ [FetcherCalled i ctx rq r])))"
  by (simp add: logFetcher_def)

lemma loop_sim:
  "\<exists>t. \<forall>log. fetcherLoop (logDatabase db) ctx (logFetchers i fs) rs rq (w, log) =
     (case fetcherLoop db ctx fs rs rq w of
        (e, rs', rq', w') \<Rightarrow> (e, rs', rq', (w', log @ t)))"
proof (induction i fs rs rq w rule: loop_cases[where db = db and ctx = ctx])
  case (Done i rs rq w)
  show ?case by (rule exI[of _ "[]"]) simp
next
  case (Empty i f fs rs w)
  show ?case by (rule exI[of _ "[]"]) (simp add: fetcherLoop_empty)
next
  case (Err i f fs rs rq w err w1)
  from Err(3) obtain t where
    t: "\<And>log. fetcherLoop (logDatabase db) ctx (logFetchers (Suc i) fs) rs rq (w1, log) =
          (case fetcherLoop db ctx fs rs rq w1 of
             (e, rs', rq', w') \<Rightarrow> (e, rs', rq', (w', log @ t)))"
    by blast
  have "fetcherLoop (logDatabase db) ctx (logFetchers i (f # fs)) rs rq (w, log) =
          (case fetcherLoop db ctx (f # fs) rs rq w of
             (e, rs', rq', w') \<Rightarrow>
               (e, rs', rq', (w', log @ FetcherCalled i ctx rq (Inl err) # t)))" for log
  proof -
    have l: "logFetcher i f ctx rq (w, log) =
               (Inl err, (w1, log @ [FetcherCalled i ctx rq (Inl err)]))"
      by (simp add: logFetcher_call Err)
    show ?thesis
      unfolding logFetchers.simps
        fetcherLoop_err[where f = "logFetcher i f", OF Err(1) l]
        fetcherLoop_err[where f = f, OF Err(1,2)] t
      by (simp split: prod.splits)
  qed
  then show ?case by blast
next
  case (Failed i f fs rs rq w fr w1 e w2)
  have "fetcherLoop (logDatabase db) ctx (logFetchers i (f # fs)) rs rq (w, log) =
          (case fetcherLoop db ctx (f # fs) rs rq w of
             (e', rs', rq', w') \<Rightarrow>
               (e', rs', rq',
                (w', log @ [FetcherCalled i ctx rq (Inr fr), StoreWrite ctx fr (Some e)])))" for log
  proof -
    have l: "logFetcher i f ctx rq (w, log) =
               (Inr fr, (w1, log @ [FetcherCalled i ctx rq (Inr fr)]))"
      by (simp add: logFetcher_call Failed)
    have s: "db_StoreKeys (logDatabase db) ctx fr (w1, log @ [FetcherCalled i ctx rq (Inr fr)]) =
               (Some e, (w2, (log @ [FetcherCalled i ctx rq (Inr fr)]) @ [StoreWrite ctx fr (Some e)]))"
      by (simp add: logDatabase_store Failed)
    show ?thesis
      unfolding logFetchers.simps
        fetcherLoop_failed[where f = "logFetcher i f", OF Failed(1) l s]
        fetcherLoop_failed[where f = f, OF Failed(1,2,3)]
      by simp
  qed
  then show ?case by blast
next
  case (Stored i f fs rs rq w fr w1 w2)
  from Stored(4) obtain t where
    t: "\<And>log. fetcherLoop (logDatabase db) ctx (logFetchers (Suc i) fs) (rs ++\<^sub>f fr)
              (fmdrop_fset (fmdom fr) rq) (w2, log) =
          (case fetcherLoop db ctx fs (rs ++\<^sub>f fr) (fmdrop_fset (fmdom fr) rq) w2 of
             (e, rs', rq', w') \<Rightarrow> (e, rs', rq', (w', log @ t)))"
    by blast
  have "fetcherLoop (logDatabase db) ctx (logFetchers i (f # fs)) rs rq (w, log) =
          (case fetcherLoop db ctx (f # fs) rs rq w of
             (e', rs', rq', w') \<Rightarrow>
               (e', rs', rq',
                (w', log @ FetcherCalled i ctx rq (Inr fr) # StoreWrite ctx fr None # t)))" for log
  proof -
    have l: "logFetcher i f ctx rq (w, log) =
               (Inr fr, (w1, log @ [FetcherCalled i ctx rq (Inr fr)]))"
      by (simp add: logFetcher_call Stored)
    have s: "db_StoreKeys (logDatabase db) ctx fr (w1, log @ [FetcherCalled i ctx rq (Inr fr)]) =
               (None, (w2, (log @ [FetcherCalled i ctx rq (Inr fr)]) @ [StoreWrite ctx fr None]))"
      by (simp add: logDatabase_store Stored)
    show ?thesis
      unfolding logFetchers.simps
        fetcherLoop_stored[where f = "logFetcher i f", OF Stored(1) l s]
        fetcherLoop_stored[where f = f, OF Stored(1,2,3)] t
      by (simp split: prod.splits)
  qed
  then show ?case by blast
qed

lemma logged_loop:
  "fetcherLoop (logDatabase db) ctx (logFetchers i fs) rs rq (w, log) =
     (case fetcherLoop db ctx fs rs rq w of
        (e, rs', rq', w') \<Rightarrow> (e, rs', rq', (w', log @ loopLog db ctx i fs rs rq w)))"
proof -
  from loop_sim[of db ctx i fs rs rq w] obtain t where
    t: "\<And>log. fetcherLoop (logDatabase db) ctx (logFetchers i fs) rs rq (w, log) =
          (case fetcherLoop db ctx fs rs rq w of
             (e, rs', rq', w') \<Rightarrow> (e, rs', rq', (w', log @ t)))"
    by blast
  have "loopLog db ctx i fs rs rq w = t"
    unfolding loopLog_def t[of "[]"] by (simp split: prod.splits)
  with t show ?thesis by simp
qed

lemma loopLog_Nil: "loopLog db ctx i [] rs rq w = []"
  by (simp add: loopLog_def)

lemma loopLog_empty: "loopLog db ctx i fs rs fmempty w = []"
  by (simp add: loopLog_def fetcherLoop_empty)

lemma loopLog_err:
  assumes "rq \<noteq> fmempty" and "f ctx rq w = (Inl err, w1)"
  shows "loopLog db ctx i (f # fs) rs rq w =
           FetcherCalled i ctx rq (Inl err) # loopLog db ctx (Suc i) fs rs rq w1"
proof -
  have l: "logFetcher i f ctx rq (w, []) = (Inl err, (w1, [FetcherCalled i ctx rq (Inl err)]))"
    by (simp add: logFetcher_call assms)
  have "loopLog db ctx i (f # fs) rs rq w =
          snd (snd (snd (snd (fetcherLoop (logDatabase db) ctx (logFetchers (Suc i) fs) rs rq
                                (w1, [FetcherCalled i ctx rq (Inl err)])))))"
    by (simp only: loopLog_def logFetchers.simps
          fetcherLoop_err[where f = "logFetcher i f" and w = "(w, [])", OF assms(1) l])
  also have "\<dots> = FetcherCalled i ctx rq (Inl err) # loopLog db ctx (Suc i) fs rs rq w1"
    by (simp add: logged_loop split: prod.splits)
  finally show ?thesis .
qed

lemma loopLog_failed:
  assumes "rq \<noteq> fmempty" and "f ctx rq w = (Inr fr, w1)"
    and "db_StoreKeys db ctx fr w1 = (Some e, w2)"
  shows "loopLog db ctx i (f # fs) rs rq w =
           [FetcherCalled i ctx rq (Inr fr), StoreWrite ctx fr (Some e)]"
proof -
  have l: "logFetcher i f ctx rq (w, []) = (Inr fr, (w1, [FetcherCalled i ctx rq (Inr fr)]))"
    by (simp add: logFetcher_call assms)
  have s: "db_StoreKeys (logDatabase db) ctx fr (w1, [FetcherCalled i ctx rq (Inr fr)]) =
             (Some e, (w2, [FetcherCalled i ctx rq (Inr fr), StoreWrite ctx fr (Some e)]))"
    by (simp add: logDatabase_store assms)
  show ?thesis
    by (simp only: loopLog_def logFetchers.simps snd_conv
          fetcherLoop_failed[where f = "logFetcher i f" and w = "(w, [])", OF assms(1) l s])
qed

lemma loopLog_stored:
  assumes "rq \<noteq> fmempty" and "f ctx rq w = (Inr fr, w1)"
    and "db_StoreKeys db ctx fr w1 = (None, w2)"
  shows "loopLog db ctx i (f # fs) rs rq w =
           FetcherCalled i ctx rq (Inr fr) # StoreWrite ctx fr None
             # loopLog db ctx (Suc i) fs (rs ++\<^sub>f fr) (fmdrop_fset (fmdom fr) rq) w2"
proof -
  have l: "logFetcher i f ctx rq (w, []) = (Inr fr, (w1, [FetcherCalled i ctx rq (Inr fr)]))"
    by (simp add: logFetcher_call assms)
  have s: "db_StoreKeys (logDatabase db) ctx fr (w1, [FetcherCalled i ctx rq (Inr fr)]) =
             (None, (w2, [FetcherCalled i ctx rq (Inr fr), StoreWrite ctx fr None]))"
    by (simp add: logDatabase_store assms)
  have "loopLog db ctx i (f # fs) rs rq w =
          snd (snd (snd (snd (fetcherLoop (logDatabase db) ctx (logFetchers (Suc i) fs)
                                (rs ++\<^sub>f fr) (fmdrop_fset (fmdom fr) rq)
                                (w2, [FetcherCalled i ctx rq (Inr fr), StoreWrite ctx fr None])))))"
    by (simp only: loopLog_def logFetchers.simps
          fetcherLoop_stored[where f = "logFetcher i f" and w = "(w, [])", OF assms(1) l s])
  also have "\<dots> = FetcherCalled i ctx rq (Inr fr) # StoreWrite ctx fr None
             # loopLog db ctx (Suc i) fs (rs ++\<^sub>f fr) (fmdrop_fset (fmdom fr) rq) w2"
    by (simp add: logged_loop split: prod.splits)
  finally show ?thesis .
qed

lemma loop_induct [case_names Done Empty Err Failed Stored]:
  assumes "\<And>i rs rq w. P i [] rs rq w"
    and "\<And>i f fs rs w. P i (f # fs) rs fmempty w"
    and "\<And>i f fs rs rq w err w1.
           rq \<noteq> fmempty \<Longrightarrow> f ctx rq w = (Inl err, w1)
           \<Longrightarrow> fetcherLoop db ctx (f # fs) rs rq w = fetcherLoop db ctx fs rs rq w1
           \<Longrightarrow> loopLog db ctx i (f # fs) rs rq w =
                 FetcherCalled i ctx rq (Inl err) # loopLog db ctx (Suc i) fs rs rq w1
           \<Longrightarrow> P (Suc i) fs rs rq w1
           \<Longrightarrow> P i (f # fs) rs rq w"
    and "\<And>i f fs rs rq w fr w1 e w2.
           rq \<noteq> fmempty \<Longrightarrow> f ctx rq w = (Inr fr, w1)
           \<Longrightarrow> db_StoreKeys db ctx fr w1 = (Some e, w2)
           \<Longrightarrow> fetcherLoop db ctx (f # fs) rs rq w =
                 (Some (FailedToStore e), rs ++\<^sub>f fr, fmdrop_fset (fmdom fr) rq, w2)
           \<Longrightarrow> loopLog db ctx i (f # fs) rs rq w =
                 [FetcherCalled i ctx rq (Inr fr), StoreWrite ctx fr (Some e)]
           \<Longrightarrow> P i (f # fs) rs rq w"
    and "\<And>i f fs rs rq w fr w1 w2.
           rq \<noteq> fmempty \<Longrightarrow> f ctx rq w = (Inr fr, w1)
           \<Longrightarrow> db_StoreKeys db ctx fr w1 = (None, w2)
           \<Longrightarrow> fetcherLoop db ctx (f # fs) rs rq w =
                 fetcherLoop db ctx fs (rs ++\<^sub>f fr) (fmdrop_fset (fmdom fr) rq) w2
           \<Longrightarrow> loopLog db ctx i (f # fs) rs rq w =
                 FetcherCalled i ctx rq (Inr fr) # StoreWrite ctx fr None
                   # loopLog db ctx (Suc i) fs (rs ++\<^sub>f fr) (fmdrop_fset (fmdom fr) rq) w2
           \<Longrightarrow> P (Suc i) fs (rs ++\<^sub>f fr) (fmdrop_fset (fmdom fr) rq) w2
           \<Longrightarrow> P i (f # fs) rs rq w"
  shows "P i fs rs rq w"
proof (induction i fs rs rq w rule: loop_cases[where db = db and ctx = ctx])
  case (Done i rs rq w)
  show ?case by (rule assms(1))
next
  case (Empty i f fs rs w)
  show ?case by (rule assms(2))
next
  case (Err i f fs rs rq w err w1)
  show ?case
    by (rule assms(3)[OF Err(1,2) fetcherLoop_err[where f = f, OF Err(1,2)]
          loopLog_err[where f = f, OF Err(1,2)] Err(3)])
next
  case (Failed i f fs rs rq w fr w1 e w2)
  show ?case
    by (rule assms(4)[OF Failed(1,2,3) fetcherLoop_failed[where f = f, OF Failed(1,2,3)]
          loopLog_failed[where f = f, OF Failed(1,2,3)]])
next
  case (Stored i f fs rs rq w fr w1 w2)
  show ?case
    by (rule assms(5)[OF Stored(1,2,3) fetcherLoop_stored[where f = f, OF Stored(1,2,3)]
          loopLog_stored[where f = f, OF Stored(1,2,3)] Stored(4)])
qed

section \<open>What the loop's events look like\<close>



lemma context_loopLog: "ev \<in> set (loopLog db ctx i fs rs rq w) \<Longrightarrow> eventContext ev = ctx"
  by (induction i fs rs rq w rule: loop_induct[where db = db and ctx = ctx])
     (auto simp add: loopLog_Nil loopLog_empty)



lemma results_kept_loopLog:
  "req |\<notin>| answered (loopLog db ctx i fs rs rq w) \<Longrightarrow>
     fmlookup (fst (snd (fetcherLoop db ctx fs rs rq w))) req = fmlookup rs req"
  by (induction i fs rs rq w rule: loop_induct[where db = db and ctx = ctx])
     (simp_all add: loopLog_Nil loopLog_empty fetcherLoop_empty fmdom_notD)







section \<open>\<^verbatim>\<open>FetchKeys\<close>, and what the collaborators see of it\<close>

lemma FetchKeys_cases:
  assumes "db_FetchKeys (KeyDatabase (OurKeyRing s)) Background requests w = (rd, w1)"
    and "consultStore now rd requests = (rs0, rq0)"
    and "fetcherLoop (KeyDatabase (OurKeyRing s)) Background (KeyFetchers (OurKeyRing s))
           rs0 rq0 w1 = (e, rs, rq, w2)"
  shows "FetchKeys s now c requests w =
           (case e of
              Some err \<Rightarrow> (None, Some err, rq, w2)
            | None \<Rightarrow>
                if rq = fmempty then (Some rs, None, rq, w2)
                else (Some rs, Some (FailedToFetch (fcard (fmdom rq))), rq, w2))"
  by (simp add: FetchKeys_def assms len_pos_iff split: option.splits)

lemma FetchKeys_logAPI:
  assumes "db_FetchKeys (KeyDatabase (OurKeyRing s)) Background requests w = (rd, w1)"
    and "consultStore now rd requests = (rs0, rq0)"
  shows "FetchKeys (logAPI s) now c requests (w, log) =
           (case FetchKeys s now c requests w of
              (out, err, rq, w') \<Rightarrow>
                (out, err, rq,
                 (w', log @ StoreRead Background requests rd
                        # loopLog (KeyDatabase (OurKeyRing s)) Background 0
                            (KeyFetchers (OurKeyRing s)) rs0 rq0 w1)))"
  by (simp add: FetchKeys_def logAPI_def logDatabase_fetch logged_loop assms len_pos_iff
           split: prod.splits option.splits)







section \<open>The validity test and the two loops that use it\<close>

lemma usable_iff: "usable now res \<longleftrightarrow> \<not> stale now res"
  by (auto simp add: usable_def stale_def)

lemma consultStore_lookup:
  "fmlookup (fst (consultStore now (Inr dbResults) requests)) req =
     (case fmlookup dbResults req of
        None \<Rightarrow> None
      | Some res \<Rightarrow> if usable now res then Some res else None)"
  by (simp add: consultStore_def addStoreResults_def usable_iff split: option.splits)

lemma cacheLookups_result:
  "fmlookup (fst (cacheLookups now cache requests)) req =
     (case GetServerKey cache req of
        None \<Rightarrow> None
      | Some res \<Rightarrow> if req |\<in>| fmdom requests \<and> usable now res then Some res else None)"
  by (simp add: cacheLookups_def GetServerKey_def usable_iff split: option.splits)

lemma cacheLookups_request:
  "fmlookup (snd (cacheLookups now cache requests)) req =
     (case GetServerKey cache req of
        None \<Rightarrow> fmlookup requests req
      | Some res \<Rightarrow> None)"
  by (simp add: cacheLookups_def GetServerKey_def split: option.splits)

lemma FetchKeys_client_cases:
  "FetchKeys_client api now callerCtx requests (cache, rw) =
     (case QueryPublicKeys api Background (snd (cacheLookups now cache requests)) rw of
        (Inl err, rw') \<Rightarrow> (None, Some err, cache, rw')
      | (Inr response, rw') \<Rightarrow>
          (Some (fst (cacheLookups now cache requests) ++\<^sub>f response), None,
           cache ++\<^sub>f response, rw'))"
  by (cases "cacheLookups now cache requests")
     (simp add: FetchKeys_client_def split: prod.splits sum.splits)

text \<open>
  In the Key Ring a stale result of the Store leaves its identifier outstanding, so that
  the Fetchers are asked for it.
\<close>

lemma stale_store_result_stays_outstanding:
  assumes "fmlookup dbResults req = Some res" and "stale now res"
  shows "fmlookup (snd (consultStore now (Inr dbResults) requests)) req = fmlookup requests req"
  using assms by (simp add: consultStore_def addStoreResults_def)

text \<open>
  In the facade an identifier with any cache entry, stale or not, is left out of the
  remote request.
\<close>

lemma cached_identifier_not_requested:
  assumes "GetServerKey cache req = Some res"
  shows "req |\<notin>| fmdom (snd (cacheLookups now cache requests))"
  using assms cacheLookups_request[of now cache requests req]
  by (simp add: fmdom_notI)

section \<open>Properties of the Key Ring\<close>






text \<open>
  The log of the example: the read finds the key of \<open>a.example\<close>; the first Fetcher is
  asked for the other two keys and fails; the second one is asked for the same two and
  answers one, which is written at once.
\<close>

lemma example_log:
  "snd (snd (snd (snd (FetchKeys (logAPI exampleAPI) 50 (Cancellable True) exampleRequests
                          (exampleStored, []))))) =
     [StoreRead Background exampleRequests (Inr (fmap_of_list [(keyA, validUntil 100)])),
      FetcherCalled 0 Background (fmap_of_list [(keyB, 50), (keyC, 50)])
        (Inl (Collaborator ''unreachable'')),
      FetcherCalled 1 Background (fmap_of_list [(keyB, 50), (keyC, 50)])
        (Inr (fmap_of_list [(keyB, validUntil 200)])),
      StoreWrite Background (fmap_of_list [(keyB, validUntil 200)]) None]"
  by code_simp



text \<open>
  C7.  \<^verbatim>\<open>StoreKeys\<close> and \<^verbatim>\<open>FetchKeys\<close> of the Key Ring and \<^verbatim>\<open>StoreKeys\<close> of the facade do the
  same for any two contexts of the caller, cancelled or not: they return the same and
  leave the same Store, cache and remote world.  Every call the Key Ring makes to the Store
  or to a Fetcher is made with the background context, and so is the remote call of the
  facade's \<^verbatim>\<open>StoreKeys\<close>, whose write to the cache does not depend on the remote call.
\<close>

theorem caller_context_ignored:
  "StoreKeys s c1 results w = StoreKeys s c2 results w
   \<and> FetchKeys s now c1 requests w = FetchKeys s now c2 requests w
   \<and> StoreKeys_client api c1 results (cache, rw) = StoreKeys_client api c2 results (cache, rw)
   \<and> (\<forall>ev \<in> set (snd (snd (StoreKeys (logAPI s) c1 results (w, [])))).
         eventContext ev = Background)
   \<and> (\<forall>ev \<in> set (snd (snd (snd (snd (FetchKeys (logAPI s) now c1 requests (w, [])))))).
         eventContext ev = Background)
   \<and> StoreKeys_client api c1 results (cache, rw) =
       (fst (InputPublicKeys api Background results rw), cache ++\<^sub>f results,
        snd (InputPublicKeys api Background results rw))"
proof -
  let ?db = "KeyDatabase (OurKeyRing s)" and ?fs = "KeyFetchers (OurKeyRing s)"
  have store: "StoreKeys s c1 results w = StoreKeys s c2 results w"
    by (simp add: StoreKeys_def)
  have fetch: "FetchKeys s now c1 requests w = FetchKeys s now c2 requests w"
    by (simp add: FetchKeys_def)
  have client: "StoreKeys_client api c results (cache, rw) =
       (fst (InputPublicKeys api Background results rw), cache ++\<^sub>f results,
        snd (InputPublicKeys api Background results rw))" for c
    by (simp add: StoreKeys_client_def split: prod.splits)
  have storeLog: "eventContext ev = Background"
    if "ev \<in> set (snd (snd (StoreKeys (logAPI s) c1 results (w, []))))" for ev
    using that
    by (simp add: StoreKeys_def logAPI_def logDatabase_store split: prod.splits)
  obtain rd w1 where db: "db_FetchKeys ?db Background requests w = (rd, w1)"
    by (cases "db_FetchKeys ?db Background requests w")
  obtain rs0 rq0 where cs: "consultStore now rd requests = (rs0, rq0)"
    by (cases "consultStore now rd requests")
  have fetchLog: "eventContext ev = Background"
    if "ev \<in> set (snd (snd (snd (snd (FetchKeys (logAPI s) now c1 requests (w, []))))))" for ev
    using that context_loopLog[of ev ?db Background 0 ?fs rs0 rq0 w1]
    unfolding FetchKeys_logAPI[OF db cs] by (auto split: prod.splits)
  from store fetch client[of c1] client[of c2] storeLog fetchLog show ?thesis
    by (intro conjI ballI) simp_all
qed

theorem caller_context_ignored_witness:
  "FetchKeys exampleAPI 50 (Cancellable True) exampleRequests exampleStored =
     FetchKeys exampleAPI 50 Background exampleRequests exampleStored
   \<and> StoreKeys exampleAPI (Cancellable True) (fmap_of_list [(keyC, revoked)]) exampleStored =
     StoreKeys exampleAPI Background (fmap_of_list [(keyC, revoked)]) exampleStored
   \<and> StoreKeys exampleAPI (Cancellable True) (fmap_of_list [(keyC, revoked)]) exampleStored =
     (None, fmap_of_list [(keyA, validUntil 100), (keyC, revoked)])
   \<and> list_all (\<lambda>ev. eventContext ev = Background)
       (snd (snd (snd (snd (FetchKeys (logAPI exampleAPI) 50 (Cancellable True) exampleRequests
                              (exampleStored, []))))))
   \<and> length (snd (snd (snd (snd (FetchKeys (logAPI exampleAPI) 50 (Cancellable True)
                                   exampleRequests (exampleStored, [])))))) = 4"
proof -
  have stored: "StoreKeys exampleAPI (Cancellable True) (fmap_of_list [(keyC, revoked)])
                  exampleStored = (None, fmap_of_list [(keyA, validUntil 100), (keyC, revoked)])"
    by code_simp
  have len: "length (snd (snd (snd (snd (FetchKeys (logAPI exampleAPI) 50 (Cancellable True)
                                   exampleRequests (exampleStored, [])))))) = 4"
    by code_simp
  from caller_context_ignored[of exampleAPI "Cancellable True" "fmap_of_list [(keyC, revoked)]"
      exampleStored Background 50 exampleRequests resolvingRemote fmempty "[]"] stored len
  show ?thesis unfolding list_all_iff by blast
qed



section \<open>Properties of the validity test and of the facade\<close>

text \<open>
  C1.  A result read from the Store by the Key Ring's \<^verbatim>\<open>FetchKeys\<close>, or found in the cache
  by the facade's \<^verbatim>\<open>FetchKeys\<close> for a requested identifier, is put into the output if and only
  if it is usable in the sense of the spec: its expiry is an explicit timestamp, or the
  current time is not past its \<^verbatim>\<open>ValidUntil\<close>.  This holds for the output after the loop
  over the Store's or the cache's results, and for the batch the function returns unless a
  Fetcher's answer or the remote response brings a result for the same identifier.
\<close>

theorem usable_results_added:
  "(fmlookup dbResults req = Some res \<longrightarrow>
      fmlookup (fst (consultStore now (Inr dbResults) requests)) req =
        (if usable now res then Some res else None)
      \<and> (\<forall>(s :: 's ServerKeyAPI) callerCtx w results err requests' w' rest.
            FetchKeys (logAPI s) now callerCtx requests (w, []) =
              (Some results, err, requests',
               (w', StoreRead Background requests (Inr dbResults) # rest))
            \<and> req |\<notin>| answered rest
            \<longrightarrow> fmlookup results req = (if usable now res then Some res else None)))
   \<and> (req |\<in>| fmdom requests \<and> GetServerKey cache req = Some res \<longrightarrow>
      fmlookup (fst (cacheLookups now cache requests)) req =
        (if usable now res then Some res else None)
      \<and> (\<forall>(api :: 'w httpServerKeyInternalAPI) callerCtx rw response rw'.
            QueryPublicKeys api Background (snd (cacheLookups now cache requests)) rw =
              (Inr response, rw')
            \<and> req |\<notin>| fmdom response
            \<longrightarrow> (\<exists>result.
                  FetchKeys_client api now callerCtx requests (cache, rw) =
                    (Some result, None, cache ++\<^sub>f response, rw')
                  \<and> fmlookup result req = (if usable now res then Some res else None))))"
proof (intro conjI impI allI)
  assume "fmlookup dbResults req = Some res"
  then show "fmlookup (fst (consultStore now (Inr dbResults) requests)) req =
               (if usable now res then Some res else None)"
    by (simp add: consultStore_lookup)
next
  fix s :: "'s ServerKeyAPI" and callerCtx w results err requests' w' rest
  assume found: "fmlookup dbResults req = Some res"
    and "FetchKeys (logAPI s) now callerCtx requests (w, []) =
           (Some results, err, requests',
            (w', StoreRead Background requests (Inr dbResults) # rest))
         \<and> req |\<notin>| answered rest"
  then have run: "FetchKeys (logAPI s) now callerCtx requests (w, []) =
           (Some results, err, requests',
            (w', StoreRead Background requests (Inr dbResults) # rest))"
    and fresh: "req |\<notin>| answered rest"
    by simp_all
  let ?db = "KeyDatabase (OurKeyRing s)" and ?fs = "KeyFetchers (OurKeyRing s)"
  obtain rd w1 where db: "db_FetchKeys ?db Background requests w = (rd, w1)"
    by (cases "db_FetchKeys ?db Background requests w")
  obtain rs0 rq0 where cs: "consultStore now rd requests = (rs0, rq0)"
    by (cases "consultStore now rd requests")
  obtain e rs rq w2 where lp: "fetcherLoop ?db Background ?fs rs0 rq0 w1 = (e, rs, rq, w2)"
    by (cases "fetcherLoop ?db Background ?fs rs0 rq0 w1")
  note plain = FetchKeys_cases[OF db cs lp, of callerCtx]
  from run have rd: "rd = Inr dbResults"
    and rest: "rest = loopLog ?db Background 0 ?fs rs0 rq0 w1"
    and res: "FetchKeys s now callerCtx requests w = (Some results, err, requests', w')"
    unfolding FetchKeys_logAPI[OF db cs] by (simp_all split: prod.splits)
  from res[unfolded plain] have "results = rs"
    by (auto split: option.splits if_splits)
  moreover have "fmlookup rs req = fmlookup rs0 req"
    using results_kept_loopLog[of req ?db Background 0 ?fs rs0 rq0 w1] fresh lp
    unfolding rest by simp
  moreover have "fmlookup rs0 req = (if usable now res then Some res else None)"
    using consultStore_lookup[of now dbResults requests req] cs found unfolding rd by simp
  ultimately show "fmlookup results req = (if usable now res then Some res else None)"
    by simp
next
  assume "req |\<in>| fmdom requests \<and> GetServerKey cache req = Some res"
  then show "fmlookup (fst (cacheLookups now cache requests)) req =
               (if usable now res then Some res else None)"
    by (simp add: cacheLookups_result)
next
  fix api :: "'w httpServerKeyInternalAPI" and callerCtx rw response rw'
  assume hit: "req |\<in>| fmdom requests \<and> GetServerKey cache req = Some res"
    and remote: "QueryPublicKeys api Background (snd (cacheLookups now cache requests)) rw =
                   (Inr response, rw')
                 \<and> req |\<notin>| fmdom response"
  let ?result = "fst (cacheLookups now cache requests) ++\<^sub>f response"
  have "FetchKeys_client api now callerCtx requests (cache, rw) =
          (Some ?result, None, cache ++\<^sub>f response, rw')"
    using remote by (simp add: FetchKeys_client_cases)
  moreover have "fmlookup ?result req = (if usable now res then Some res else None)"
    using hit remote by (simp add: cacheLookups_result)
  ultimately show "\<exists>result.
      FetchKeys_client api now callerCtx requests (cache, rw) =
        (Some result, None, cache ++\<^sub>f response, rw')
      \<and> fmlookup result req = (if usable now res then Some res else None)"
    by blast
qed

theorem usable_results_added_witness:
  "usable 150 revoked \<and> 150 > ValidUntilTS revoked
   \<and> fmlookup (fst (consultStore 150 (Inr exampleCache) laterRequests)) keyA = Some revoked
   \<and> FetchKeys (logAPI exampleAPI) 150 Background laterRequests (exampleCache, []) =
       (Some (fmap_of_list [(keyA, revoked), (keyB, validUntil 200)]), None, fmempty,
        (fmap_of_list [(keyA, revoked), (keyB, validUntil 200)],
         [StoreRead Background laterRequests (Inr exampleCache),
          FetcherCalled 0 Background (fmap_of_list [(keyB, 150)])
            (Inl (Collaborator ''unreachable'')),
          FetcherCalled 1 Background (fmap_of_list [(keyB, 150)])
            (Inr (fmap_of_list [(keyB, validUntil 200)])),
          StoreWrite Background (fmap_of_list [(keyB, validUntil 200)]) None]))
   \<and> fmlookup (fmap_of_list [(keyA, revoked), (keyB, validUntil 200)]) keyA = Some revoked
   \<and> fmlookup (fst (cacheLookups 150 exampleCache laterRequests)) keyA = Some revoked
   \<and> (\<exists>result.
         FetchKeys_client resolvingRemote 150 Background laterRequests (exampleCache, []) =
           (Some result, None, exampleCache ++\<^sub>f fmempty, [fmempty])
         \<and> fmlookup result keyA = Some revoked)"
proof -
  let ?rest = "[FetcherCalled 0 Background (fmap_of_list [(keyB, 150)])
            (Inl (Collaborator ''unreachable'')),
          FetcherCalled 1 Background (fmap_of_list [(keyB, 150)])
            (Inr (fmap_of_list [(keyB, validUntil 200)])),
          StoreWrite Background (fmap_of_list [(keyB, validUntil 200)]) None]"
  have ok: "usable 150 revoked" and past: "150 > ValidUntilTS revoked"
    by code_simp+
  have stored: "fmlookup exampleCache keyA = Some revoked"
    by code_simp
  have run: "FetchKeys (logAPI exampleAPI) 150 Background laterRequests (exampleCache, []) =
       (Some (fmap_of_list [(keyA, revoked), (keyB, validUntil 200)]), None, fmempty,
        (fmap_of_list [(keyA, revoked), (keyB, validUntil 200)],
         StoreRead Background laterRequests (Inr exampleCache) # ?rest))"
    by code_simp
  have fresh: "keyA |\<notin>| answered ?rest"
    by code_simp
  have asked: "keyA |\<in>| fmdom laterRequests" and cached: "GetServerKey exampleCache keyA = Some revoked"
    by code_simp+
  have remote: "QueryPublicKeys resolvingRemote Background
                  (snd (cacheLookups 150 exampleCache laterRequests)) [] = (Inr fmempty, [fmempty])"
    by code_simp
  have absent: "keyA |\<notin>| fmdom (fmempty :: results)"
    by simp
  note inst = usable_results_added[where 's = results and 'w = "requests list",
      of exampleCache keyA revoked 150 laterRequests exampleCache, unfolded if_P[OF ok]]
  from inst stored ok
  have one: "fmlookup (fst (consultStore 150 (Inr exampleCache) laterRequests)) keyA = Some revoked"
    by blast
  from inst stored ok run fresh
  have two: "fmlookup (fmap_of_list [(keyA, revoked), (keyB, validUntil 200)]) keyA = Some revoked"
    by blast
  from inst asked cached ok
  have three: "fmlookup (fst (cacheLookups 150 exampleCache laterRequests)) keyA = Some revoked"
    by blast
  from inst asked cached ok remote absent
  have four: "\<exists>result.
         FetchKeys_client resolvingRemote 150 Background laterRequests (exampleCache, []) =
           (Some result, None, exampleCache ++\<^sub>f fmempty, [fmempty])
         \<and> fmlookup result keyA = Some revoked"
    by blast
  from ok past one run two three four show ?thesis by simp
qed

text \<open>
  C2 (the facade's part fails).  The facade's \<^verbatim>\<open>FetchKeys\<close> is asked at the time 150 for the
  key of \<open>a.example\<close>, and its cache holds for it a result that is not expired and was
  valid until 100.  The result is stale, the remote Key Ring would resolve every identifier
  it is asked for, and yet the call asks it for the empty batch and returns the empty batch
  without an error: the identifier is neither answered nor fetched again.
\<close>

theorem stale_cache_entry_not_refetched:
  "stale 150 (validUntil 100)
   \<and> FetchKeys_client resolvingRemote 150 Background (fmap_of_list [(keyA, 150)])
       (fmap_of_list [(keyA, validUntil 100)], []) =
     (Some fmempty, None, fmap_of_list [(keyA, validUntil 100)], [fmempty])"
  by code_simp

text \<open>
  C6 (as stated it fails).  The cache holds a usable result for the only identifier
  requested, so the batch of the remote request is empty; the remote call is made all the
  same, it fails, and \<^verbatim>\<open>FetchKeys\<close> returns no batch and the error of the call: the
  identifier is not answered from the cache.
\<close>

theorem cached_identifier_not_answered_when_remote_fails:
  "keyA |\<in>| fmdom (fmap_of_list [(keyA, 50 :: Timestamp)])
   \<and> GetServerKey exampleStored keyA = Some (validUntil 100)
   \<and> usable 50 (validUntil 100)
   \<and> FetchKeys_client downRemote 50 Background (fmap_of_list [(keyA, 50)]) (exampleStored, []) =
       (None, Some (Collaborator ''connection refused''), exampleStored, [fmempty])"
  by code_simp

text \<open>
  C6, amended.  In the facade's \<^verbatim>\<open>FetchKeys\<close> a requested identifier whose cache entry is
  usable is put into the output from the cache and is not in the batch of the remote
  request.  The remote call is made with that batch, also when the batch is empty.  If the
  call fails, the function returns its error and no batch, and the cache stays as it is.
  If it succeeds, a batch is returned without an error: every result of the response is
  in the batch and in the cache afterwards, whatever the cache held before; the identifier
  with the usable cache entry is answered from the cache unless the response holds a
  result for it; and for the identifiers not in the response the cache and the output
  from the cache stay as they are.
\<close>

theorem cache_hits_not_requested:
  "(req |\<in>| fmdom requests \<and> GetServerKey cache req = Some res \<and> usable now res \<longrightarrow>
      fmlookup (fst (cacheLookups now cache requests)) req = Some res
      \<and> req |\<notin>| fmdom (snd (cacheLookups now cache requests)))
   \<and> FetchKeys_client api now callerCtx requests (cache, rw) =
       (case QueryPublicKeys api Background (snd (cacheLookups now cache requests)) rw of
          (Inl err, rw') \<Rightarrow> (None, Some err, cache, rw')
        | (Inr response, rw') \<Rightarrow>
            (Some (fst (cacheLookups now cache requests) ++\<^sub>f response), None,
             cache ++\<^sub>f response, rw'))
   \<and> (\<forall>err rw'.
         QueryPublicKeys api Background (snd (cacheLookups now cache requests)) rw =
           (Inl err, rw')
         \<longrightarrow> FetchKeys_client api now callerCtx requests (cache, rw) =
               (None, Some err, cache, rw'))
   \<and> (\<forall>response rw'.
         QueryPublicKeys api Background (snd (cacheLookups now cache requests)) rw =
           (Inr response, rw')
         \<longrightarrow> (\<exists>result cache'.
               FetchKeys_client api now callerCtx requests (cache, rw) =
                 (Some result, None, cache', rw')
               \<and> (req |\<in>| fmdom requests \<and> GetServerKey cache req = Some res
                    \<and> usable now res \<and> req |\<notin>| fmdom response
                   \<longrightarrow> fmlookup result req = Some res)
               \<and> (\<forall>k r. fmlookup response k = Some r \<longrightarrow>
                     fmlookup result k = Some r \<and> GetServerKey cache' k = Some r)
               \<and> (\<forall>k. k |\<notin>| fmdom response \<longrightarrow>
                     GetServerKey cache' k = GetServerKey cache k
                     \<and> fmlookup result k = fmlookup (fst (cacheLookups now cache requests)) k)))"
proof (intro conjI impI allI)
  assume hit: "req |\<in>| fmdom requests \<and> GetServerKey cache req = Some res \<and> usable now res"
  then show "fmlookup (fst (cacheLookups now cache requests)) req = Some res"
    by (simp add: cacheLookups_result)
  from hit show "req |\<notin>| fmdom (snd (cacheLookups now cache requests))"
    by (simp add: cached_identifier_not_requested)
next
  show "FetchKeys_client api now callerCtx requests (cache, rw) =
       (case QueryPublicKeys api Background (snd (cacheLookups now cache requests)) rw of
          (Inl err, rw') \<Rightarrow> (None, Some err, cache, rw')
        | (Inr response, rw') \<Rightarrow>
            (Some (fst (cacheLookups now cache requests) ++\<^sub>f response), None,
             cache ++\<^sub>f response, rw'))"
    by (rule FetchKeys_client_cases)
next
  fix err rw'
  assume "QueryPublicKeys api Background (snd (cacheLookups now cache requests)) rw =
            (Inl err, rw')"
  then show "FetchKeys_client api now callerCtx requests (cache, rw) =
               (None, Some err, cache, rw')"
    by (simp add: FetchKeys_client_cases)
next
  fix response rw'
  assume remote: "QueryPublicKeys api Background (snd (cacheLookups now cache requests)) rw =
                    (Inr response, rw')"
  let ?result = "fst (cacheLookups now cache requests) ++\<^sub>f response"
  have "FetchKeys_client api now callerCtx requests (cache, rw) =
          (Some ?result, None, cache ++\<^sub>f response, rw')"
    using remote by (simp add: FetchKeys_client_cases)
  moreover have "fmlookup ?result req = Some res"
    if "req |\<in>| fmdom requests \<and> GetServerKey cache req = Some res
        \<and> usable now res \<and> req |\<notin>| fmdom response"
    using that by (simp add: cacheLookups_result)
  moreover have "fmlookup ?result k = Some r \<and> GetServerKey (cache ++\<^sub>f response) k = Some r"
    if "fmlookup response k = Some r" for k r
    using that by (simp add: GetServerKey_def fmlookup_dom_iff)
  moreover have "GetServerKey (cache ++\<^sub>f response) k = GetServerKey cache k
      \<and> fmlookup ?result k = fmlookup (fst (cacheLookups now cache requests)) k"
    if "k |\<notin>| fmdom response" for k
    using that by (simp add: GetServerKey_def)
  ultimately show "\<exists>result cache'.
      FetchKeys_client api now callerCtx requests (cache, rw) = (Some result, None, cache', rw')
      \<and> (req |\<in>| fmdom requests \<and> GetServerKey cache req = Some res
           \<and> usable now res \<and> req |\<notin>| fmdom response
          \<longrightarrow> fmlookup result req = Some res)
      \<and> (\<forall>k r. fmlookup response k = Some r \<longrightarrow>
            fmlookup result k = Some r \<and> GetServerKey cache' k = Some r)
      \<and> (\<forall>k. k |\<notin>| fmdom response \<longrightarrow>
            GetServerKey cache' k = GetServerKey cache k
            \<and> fmlookup result k = fmlookup (fst (cacheLookups now cache requests)) k)"
    by blast
qed

theorem cache_hits_not_requested_witness:
  "keyA |\<in>| fmdom exampleRequests \<and> GetServerKey exampleStored keyA = Some (validUntil 100)
   \<and> usable 50 (validUntil 100)
   \<and> fmlookup (fst (cacheLookups 50 exampleStored exampleRequests)) keyA = Some (validUntil 100)
   \<and> keyA |\<notin>| fmdom (snd (cacheLookups 50 exampleStored exampleRequests))
   \<and> QueryPublicKeys resolvingRemote Background
       (snd (cacheLookups 50 exampleStored exampleRequests)) [] =
       (Inr (fmap_of_list [(keyB, validUntil 1000), (keyC, validUntil 1000)]),
        [fmap_of_list [(keyB, 50), (keyC, 50)]])
   \<and> (\<exists>result cache'.
         FetchKeys_client resolvingRemote 50 (Cancellable False) exampleRequests
           (exampleStored, []) =
           (Some result, None, cache', [fmap_of_list [(keyB, 50), (keyC, 50)]])
         \<and> fmlookup result keyB = Some (validUntil 1000)
         \<and> GetServerKey cache' keyB = Some (validUntil 1000)
         \<and> fmlookup result keyA = Some (validUntil 100))
   \<and> QueryPublicKeys downRemote Background
       (snd (cacheLookups 50 exampleStored exampleRequests)) [] =
       (Inl (Collaborator ''connection refused''), [fmap_of_list [(keyB, 50), (keyC, 50)]])
   \<and> FetchKeys_client downRemote 50 (Cancellable False) exampleRequests (exampleStored, []) =
       (None, Some (Collaborator ''connection refused''), exampleStored,
        [fmap_of_list [(keyB, 50), (keyC, 50)]])"
proof -
  have hit: "keyA |\<in>| fmdom exampleRequests" "GetServerKey exampleStored keyA = Some (validUntil 100)"
    "usable 50 (validUntil 100)"
    by code_simp+
  have remote: "QueryPublicKeys resolvingRemote Background
       (snd (cacheLookups 50 exampleStored exampleRequests)) [] =
       (Inr (fmap_of_list [(keyB, validUntil 1000), (keyC, validUntil 1000)]),
        [fmap_of_list [(keyB, 50), (keyC, 50)]])"
    by code_simp
  have down: "QueryPublicKeys downRemote Background
       (snd (cacheLookups 50 exampleStored exampleRequests)) [] =
       (Inl (Collaborator ''connection refused''), [fmap_of_list [(keyB, 50), (keyC, 50)]])"
    by code_simp
  have answer: "fmlookup (fmap_of_list [(keyB, validUntil 1000), (keyC, validUntil 1000)]) keyB
                  = Some (validUntil 1000)"
    and other: "keyA |\<notin>| fmdom (fmap_of_list [(keyB, validUntil 1000), (keyC, validUntil 1000)])"
    by code_simp+
  note inst = cache_hits_not_requested[of keyA exampleRequests exampleStored "validUntil 100" 50
      resolvingRemote "Cancellable False" "[]"]
  note inst2 = cache_hits_not_requested[of keyA exampleRequests exampleStored "validUntil 100" 50
      downRemote "Cancellable False" "[]"]
  from inst hit
  have local: "fmlookup (fst (cacheLookups 50 exampleStored exampleRequests)) keyA
                 = Some (validUntil 100)"
    "keyA |\<notin>| fmdom (snd (cacheLookups 50 exampleStored exampleRequests))"
    by blast+
  from inst remote obtain result cache' where
    run: "FetchKeys_client resolvingRemote 50 (Cancellable False) exampleRequests
            (exampleStored, []) =
            (Some result, None, cache', [fmap_of_list [(keyB, 50), (keyC, 50)]])"
    and cached: "keyA |\<in>| fmdom exampleRequests \<and> GetServerKey exampleStored keyA = Some (validUntil 100)
                   \<and> usable 50 (validUntil 100)
                   \<and> keyA |\<notin>| fmdom (fmap_of_list [(keyB, validUntil 1000), (keyC, validUntil 1000)])
                 \<longrightarrow> fmlookup result keyA = Some (validUntil 100)"
    and merged: "\<forall>k r. fmlookup (fmap_of_list [(keyB, validUntil 1000), (keyC, validUntil 1000)]) k
                     = Some r
                   \<longrightarrow> fmlookup result k = Some r \<and> GetServerKey cache' k = Some r"
    by blast
  from merged answer have "fmlookup result keyB = Some (validUntil 1000)"
    "GetServerKey cache' keyB = Some (validUntil 1000)"
    by blast+
  moreover from cached hit other have "fmlookup result keyA = Some (validUntil 100)"
    by blast
  moreover from inst2 down
  have "FetchKeys_client downRemote 50 (Cancellable False) exampleRequests (exampleStored, []) =
       (None, Some (Collaborator ''connection refused''), exampleStored,
        [fmap_of_list [(keyB, 50), (keyC, 50)]])"
    by blast
  ultimately show ?thesis using hit local remote run down by blast
qed

section \<open>The round trip through the Key Store\<close>

lemma mapStore_read_back:
  assumes "fmdom requests = fmdom results"
  shows "fmrestrict_fset (fmdom requests) (stored ++\<^sub>f results) = results"
proof (rule fmap_ext)
  fix x
  show "fmlookup (fmrestrict_fset (fmdom requests) (stored ++\<^sub>f results)) x = fmlookup results x"
    unfolding assms by (cases "x |\<in>| fmdom results") (simp_all add: fmdom_notD)
qed

lemma consultStore_all_usable:
  assumes "fmdom requests = fmdom results"
    and "\<forall>req res. fmlookup results req = Some res \<longrightarrow> \<not> stale now res"
  shows "consultStore now (Inr results) requests = (results, fmempty)"
proof -
  have kept: "fmfilter (\<lambda>req. case fmlookup results req of None \<Rightarrow> False
                               | Some res \<Rightarrow> \<not> stale now res) results = results"
    using assms(2) by (intro fmap_ext) (auto split: option.splits)
  have none: "fmdrop_fset (fmdom results) requests = fmempty"
    unfolding assms(1)[symmetric] by (intro fmap_ext) (auto simp: fmdom_notD)
  have "fmempty ++\<^sub>f results = results"
    by (intro fmap_ext) (auto simp: fmdom_notD)
  with kept none show ?thesis
    by (simp add: consultStore_def addStoreResults_def)
qed

text \<open>
  C8.  Over the Key Store of the spec, with any Fetchers and any stored batch to begin
  with: after \<^verbatim>\<open>StoreKeys\<close> of the Key Ring has stored a batch of results, which it does
  without an error, \<^verbatim>\<open>FetchKeys\<close> for the identifiers of that batch, at a time that is not
  past the \<^verbatim>\<open>ValidUntil\<close> of any of its results, returns exactly the batch and no error,
  whatever the requested valid-at timestamps are; it leaves nothing outstanding and the
  store as it is.
\<close>

theorem store_then_fetch_roundtrip:
  assumes store: "KeyDatabase (OurKeyRing s) = mapStore"
    and same: "fmdom requests = fmdom results"
    and valid: "\<forall>req res. fmlookup results req = Some res \<longrightarrow> now \<le> ValidUntilTS res"
  shows "\<exists>stored'.
           StoreKeys s c1 results stored = (None, stored')
           \<and> FetchKeys s now c2 requests stored' = (Some results, None, fmempty, stored')"
proof -
  let ?stored = "stored ++\<^sub>f results"
  have put: "StoreKeys s c1 results stored = (None, ?stored)"
    by (simp add: StoreKeys_def store mapStore_def)
  have db: "db_FetchKeys (KeyDatabase (OurKeyRing s)) Background requests ?stored =
              (Inr results, ?stored)"
    by (simp add: store mapStore_def mapStore_read_back[OF same] del: fmrestrict_fset_add_distrib)
  have "\<forall>req res. fmlookup results req = Some res \<longrightarrow> \<not> stale now res"
    using valid by (fastforce simp add: stale_def not_less)
  then have cs: "consultStore now (Inr results) requests = (results, fmempty)"
    by (rule consultStore_all_usable[OF same])
  have lp: "fetcherLoop (KeyDatabase (OurKeyRing s)) Background (KeyFetchers (OurKeyRing s))
              results fmempty ?stored = (None, results, fmempty, ?stored)"
    by (rule fetcherLoop_empty)
  have "FetchKeys s now c2 requests ?stored = (Some results, None, fmempty, ?stored)"
    unfolding FetchKeys_cases[OF db cs lp] by simp
  with put show ?thesis by blast
qed

theorem store_then_fetch_roundtrip_witness:
  "KeyDatabase (OurKeyRing exampleAPI) = mapStore
   \<and> fmdom laterRequests = fmdom exampleCache
   \<and> (\<exists>stored'.
         StoreKeys exampleAPI (Cancellable True) exampleCache exampleStored = (None, stored')
         \<and> FetchKeys exampleAPI 100 Background laterRequests stored' =
             (Some exampleCache, None, fmempty, stored'))"
proof -
  have store: "KeyDatabase (OurKeyRing exampleAPI) = mapStore"
    by (simp add: exampleAPI_def)
  have same: "fmdom laterRequests = fmdom exampleCache"
    by code_simp
  have valid: "\<forall>req res. fmlookup exampleCache req = Some res \<longrightarrow> 100 \<le> ValidUntilTS res"
    by (simp add: exampleCache_def revoked_def validUntil_def)
  from store_then_fetch_roundtrip[OF store same valid, of "Cancellable True" exampleStored Background]
    store same
  show ?thesis by blast
qed

section \<open>Properties of the truncation\<close>

text \<open>
  C9.  For every pair of reference lists the truncation returns the first ten authorization
  references and the first twenty preceding-event references: each result is a prefix of
  its input in the input's order, has at most 10 (respectively 20) entries, and is the
  input itself whenever the input is at or under the cap.
\<close>

theorem truncate_caps_prefix:
  "truncateAuthAndPrevEvents auth prev = (take 10 auth, take 20 prev)
   \<and> length (fst (truncateAuthAndPrevEvents auth prev)) \<le> 10
   \<and> length (snd (truncateAuthAndPrevEvents auth prev)) \<le> 20
   \<and> (\<exists>rest. auth = fst (truncateAuthAndPrevEvents auth prev) @ rest)
   \<and> (\<exists>rest. prev = snd (truncateAuthAndPrevEvents auth prev) @ rest)
   \<and> (length auth \<le> 10 \<longrightarrow> fst (truncateAuthAndPrevEvents auth prev) = auth)
   \<and> (length prev \<le> 20 \<longrightarrow> snd (truncateAuthAndPrevEvents auth prev) = prev)"
proof -
  have eq: "truncateAuthAndPrevEvents auth prev = (take 10 auth, take 20 prev)"
    by (simp add: truncateAuthAndPrevEvents_def Let_def)
  have pa: "auth = take 10 auth @ drop 10 auth" and pp: "prev = take 20 prev @ drop 20 prev"
    by simp_all
  show ?thesis
    unfolding eq fst_conv snd_conv
    using pa pp by (intro conjI exI[of _ "drop 10 auth"] exI[of _ "drop 20 prev"]) simp_all
qed

theorem truncate_caps_prefix_witness:
  "truncateAuthAndPrevEvents [1, 2, 3, 4, 5, 6, 7, 8, 9, 10, 11, 12 :: nat] [7, 8 :: nat]
     = ([1, 2, 3, 4, 5, 6, 7, 8, 9, 10], [7, 8])
   \<and> length [7, 8 :: nat] \<le> 20
   \<and> snd (truncateAuthAndPrevEvents [1, 2, 3, 4, 5, 6, 7, 8, 9, 10, 11, 12 :: nat] [7, 8 :: nat])
     = [7, 8]"
  using truncate_caps_prefix [of "[1, 2, 3, 4, 5, 6, 7, 8, 9, 10, 11, 12 :: nat]" "[7, 8 :: nat]"]
  by simp

end
